theory Spec2Isabelle
  imports Main
begin

section \<open>The doubly-linked list of challenges/dll.c\<close>

text \<open>
  The C program keeps a chain of \<^verbatim>\<open>Node\<close> structs on the heap, each pointing to its
  neighbours, and a \<^verbatim>\<open>DoublyLinkedList\<close> struct with the head and tail pointers and the
  length. The model keeps an explicit store from addresses to node structs, because every
  operation rewires nodes that are reachable through several pointers.

  \<^item> A pointer is an \<open>addr option\<close>; \<open>None\<close> is \<^verbatim>\<open>NULL\<close>.
  \<^item> The store maps an address to the node allocated there; \<^verbatim>\<open>free\<close> removes the entry.
  \<^item> Reading or writing through \<^verbatim>\<open>NULL\<close> or through a freed pointer is undefined
    behaviour in C. The model stops there with a \<open>fault\<close>; a fault is a crash of the
    program and is never something the program reports.
  \<^item> \<^verbatim>\<open>calloc\<close> is taken to succeed; the address it returns is a parameter of each
    operation that allocates, so that the theorems hold for every allocator.
  \<^item> \<^verbatim>\<open>int\<close> counters are unbounded integers: overflowing \<^verbatim>\<open>len\<close> would need
    \<open>2^31\<close> live nodes, which is storage exhaustion like a failing \<^verbatim>\<open>calloc\<close>.
    Indices keep their sign, so negative indices are inputs of the model.
  \<^item> A text is the C string up to its terminating NUL; the 100-byte buffer that
    \<^verbatim>\<open>data\<close> points to belongs to one node only, is never shared and never freed, and
    is kept inside the node.
  \<^item> What \<^verbatim>\<open>printf\<close> writes is recorded in the state, one entry for each call.

  The functions modelled are \<^verbatim>\<open>create_node\<close>, \<^verbatim>\<open>create_doubly_linked_list\<close>,
  \<^verbatim>\<open>find\<close>, \<^verbatim>\<open>append\<close>, \<^verbatim>\<open>insert\<close>, \<^verbatim>\<open>delete\<close> and \<^verbatim>\<open>traverse_dll\<close>; the
  names \<open>find\<close>, \<open>append\<close> and \<open>insert\<close> are taken in HOL and carry the suffix
  \<open>_dll\<close>.
\<close>

subsection \<open>Data\<close>

type_synonym addr = nat

record Node =
  data :: string
  prev :: "addr option"
  nxt :: "addr option"

type_synonym heap = "addr \<Rightarrow> Node option"

record DoublyLinkedList =
  head :: "addr option"
  tail :: "addr option"
  len :: int

datatype fault = NullDeref | Dangling | BufferOverrun

text \<open>One constructor for each \<^verbatim>\<open>printf\<close> of the operations, with its arguments.\<close>

datatype printed =
    Cannot_insert int
  | No_node_at int
  | Arrow string
  | Null_line

record state =
  heap :: heap
  dll :: DoublyLinkedList
  out :: "printed list"

definition MAX_DATA_LEN :: nat where
  "MAX_DATA_LEN = 100"

subsection \<open>Memory access\<close>

fun bnd :: "fault + 'a \<Rightarrow> ('a \<Rightarrow> fault + 'b) \<Rightarrow> fault + 'b" where
  "bnd (Inl f) k = Inl f"
| "bnd (Inr x) k = k x"

definition deref :: "heap \<Rightarrow> addr option \<Rightarrow> fault + Node" where
  "deref h p =
     (case p of
        None \<Rightarrow> Inl NullDeref
      | Some a \<Rightarrow> (case h a of None \<Rightarrow> Inl Dangling | Some nd \<Rightarrow> Inr nd))"

definition get_prev :: "heap \<Rightarrow> addr option \<Rightarrow> fault + addr option" where
  "get_prev h p = bnd (deref h p) (\<lambda>nd. Inr (prev nd))"

definition get_next :: "heap \<Rightarrow> addr option \<Rightarrow> fault + addr option" where
  "get_next h p = bnd (deref h p) (\<lambda>nd. Inr (nxt nd))"

definition set_prev :: "heap \<Rightarrow> addr option \<Rightarrow> addr option \<Rightarrow> fault + heap" where
  "set_prev h p v =
     (case p of
        None \<Rightarrow> Inl NullDeref
      | Some a \<Rightarrow>
          (case h a of
             None \<Rightarrow> Inl Dangling
           | Some nd \<Rightarrow> Inr (h(a \<mapsto> nd\<lparr>prev := v\<rparr>))))"

definition set_next :: "heap \<Rightarrow> addr option \<Rightarrow> addr option \<Rightarrow> fault + heap" where
  "set_next h p v =
     (case p of
        None \<Rightarrow> Inl NullDeref
      | Some a \<Rightarrow>
          (case h a of
             None \<Rightarrow> Inl Dangling
           | Some nd \<Rightarrow> Inr (h(a \<mapsto> nd\<lparr>nxt := v\<rparr>))))"

text \<open>\<^verbatim>\<open>free(NULL)\<close> does nothing; freeing a block that is not allocated is a fault.\<close>

definition free :: "heap \<Rightarrow> addr option \<Rightarrow> fault + heap" where
  "free h p =
     (case p of
        None \<Rightarrow> Inr h
      | Some a \<Rightarrow> (case h a of None \<Rightarrow> Inl Dangling | Some nd \<Rightarrow> Inr (h(a := None))))"

subsection \<open>Construction\<close>

text \<open>
  \<^verbatim>\<open>create_node\<close> allocates the node at \<open>n\<close> and a buffer of \<open>MAX_DATA_LEN\<close> bytes, and
  copies the text with \<^verbatim>\<open>strcpy\<close>, which writes the text and its terminating NUL
  without looking at the size of the buffer.
\<close>

definition create_node ::
  "heap \<Rightarrow> addr \<Rightarrow> string \<Rightarrow> addr option \<Rightarrow> addr option \<Rightarrow> fault + heap \<times> addr option" where
  "create_node h n data0 prev0 next0 =
     (if MAX_DATA_LEN < length data0 + 1 then Inl BufferOverrun
      else Inr (h(n \<mapsto> \<lparr>data = data0, prev = prev0, nxt = next0\<rparr>), Some n))"

definition create_doubly_linked_list :: "heap \<Rightarrow> addr \<Rightarrow> string \<Rightarrow> fault + state" where
  "create_doubly_linked_list h n data0 =
     bnd (create_node h n data0 None None) (\<lambda>(h1, new).
       Inr \<lparr>heap = h1, dll = \<lparr>head = new, tail = new, len = 1\<rparr>, out = []\<rparr>)"

subsection \<open>find\<close>

partial_function (option) find_loop ::
  "heap \<Rightarrow> addr option \<Rightarrow> int \<Rightarrow> string \<Rightarrow> (fault + int) option" where
  "find_loop h t i target =
     (if t \<noteq> None then
        (case deref h t of
           Inl f \<Rightarrow> Some (Inl f)
         | Inr nd \<Rightarrow>
             if data nd = target then Some (Inr i)
             else find_loop h (nxt nd) (i + 1) target)
      else Some (Inr (- 1)))"

definition find_dll :: "state \<Rightarrow> string \<Rightarrow> (fault + int) option" where
  "find_dll s target = find_loop (heap s) (head (dll s)) 0 target"

subsection \<open>append\<close>

definition append_dll :: "addr \<Rightarrow> string \<Rightarrow> state \<Rightarrow> fault + state" where
  "append_dll n data0 s =
     (let h = heap s; d = dll s in
      bnd
        (if head d = None then
           bnd (create_node h n data0 None None) (\<lambda>(h1, new).
             Inr (h1, d\<lparr>head := new, tail := new\<rparr>))
         else if head d = tail d then
           bnd (create_node h n data0 (head d) None) (\<lambda>(h1, new).
           bnd (set_next h1 (head d) new) (\<lambda>h2.
             Inr (h2, d\<lparr>tail := new\<rparr>)))
         else
           bnd (create_node h n data0 (tail d) None) (\<lambda>(h1, new).
           bnd (set_next h1 (tail d) new) (\<lambda>h2.
             Inr (h2, d\<lparr>tail := new\<rparr>))))
        (\<lambda>(h', d'). Inr (s\<lparr>heap := h', dll := d'\<lparr>len := len d' + 1\<rparr>\<rparr>)))"

subsection \<open>insert and delete\<close>

text \<open>
  The loop \<^verbatim>\<open>while (i != indx) { t = t->next; i++; }\<close> of both operations. It has no
  other exit than \<open>i = indx\<close>, so it is a partial function: \<open>None\<close> is a run that never
  returns.
\<close>

partial_function (option) walk ::
  "heap \<Rightarrow> addr option \<Rightarrow> int \<Rightarrow> int \<Rightarrow> (fault + addr option) option" where
  "walk h t i indx =
     (if i \<noteq> indx then
        (case get_next h t of
           Inl f \<Rightarrow> Some (Inl f)
         | Inr t' \<Rightarrow> walk h t' (i + 1) indx)
      else Some (Inr t))"

text \<open>
  \<open>splice\<close> is the rest of \<^verbatim>\<open>insert\<close> after the loop (from the call of
  \<^verbatim>\<open>create_node\<close> to \<^verbatim>\<open>dll->len++\<close>), with \<open>t\<close> the pointer the loop stopped at.
  Every \<^verbatim>\<open>t->prev\<close> is a read of the store as it is at that point.
\<close>

definition splice :: "addr \<Rightarrow> int \<Rightarrow> string \<Rightarrow> state \<Rightarrow> addr option \<Rightarrow> fault + state" where
  "splice n indx data0 s t =
     (let h = heap s; d = dll s in
      bnd (get_prev h t) (\<lambda>p.
      bnd (create_node h n data0 p t) (\<lambda>(h1, new).
      bnd (get_prev h1 t) (\<lambda>p1.
      bnd (if p1 \<noteq> None then set_next h1 p1 new else Inr h1) (\<lambda>h2.
      bnd (set_prev h2 t new) (\<lambda>h3.
        let d1 = (if indx = 0 then d\<lparr>head := new\<rparr> else d);
            d2 = (if indx = len d1 then d1\<lparr>tail := new\<rparr> else d1)
        in Inr (s\<lparr>heap := h3, dll := d2\<lparr>len := len d2 + 1\<rparr>\<rparr>)))))))"

definition insert_dll :: "addr \<Rightarrow> int \<Rightarrow> string \<Rightarrow> state \<Rightarrow> (fault + state) option" where
  "insert_dll n indx data0 s =
     (if indx > len (dll s) then Some (Inr (s\<lparr>out := out s @ [Cannot_insert indx]\<rparr>))
      else if indx = len (dll s) then Some (append_dll n data0 s)
      else
        (case walk (heap s) (head (dll s)) 0 indx of
           None \<Rightarrow> None
         | Some (Inl f) \<Rightarrow> Some (Inl f)
         | Some (Inr t) \<Rightarrow> Some (splice n indx data0 s t)))"

text \<open>
  \<open>unlink\<close> is the rest of \<^verbatim>\<open>delete\<close> after the loop: the early return for a list
  of length 1, then the three cases for the head, the tail and a node in between, then
  \<^verbatim>\<open>dll->len--\<close> and \<^verbatim>\<open>free(t)\<close>.
\<close>

definition unlink :: "int \<Rightarrow> state \<Rightarrow> addr option \<Rightarrow> fault + state" where
  "unlink indx s t =
     (let h = heap s; d = dll s in
      if len d = 1 then
        bnd (free h t) (\<lambda>h1.
          Inr (s\<lparr>heap := h1, dll := d\<lparr>head := None, tail := None, len := len d - 1\<rparr>\<rparr>))
      else
        bnd
          (if indx = 0 then
             bnd (get_next h t) (\<lambda>nx.
             bnd (set_prev h nx None) (\<lambda>h1.
             bnd (get_next h1 t) (\<lambda>nx1.
               Inr (h1, d\<lparr>head := nx1\<rparr>))))
           else if indx = len d - 1 then
             bnd (get_prev h t) (\<lambda>pv.
             bnd (set_next h pv None) (\<lambda>h1.
             bnd (get_prev h1 t) (\<lambda>pv1.
               Inr (h1, d\<lparr>tail := pv1\<rparr>))))
           else
             bnd (get_prev h t) (\<lambda>pv.
             bnd (get_next h t) (\<lambda>nx.
             bnd (set_next h pv nx) (\<lambda>h1.
             bnd (get_next h1 t) (\<lambda>nx1.
             bnd (get_prev h1 t) (\<lambda>pv1.
             bnd (set_prev h1 nx1 pv1) (\<lambda>h2.
               Inr (h2, d))))))))
          (\<lambda>(h', d').
             bnd (free h' t) (\<lambda>h''.
               Inr (s\<lparr>heap := h'', dll := d'\<lparr>len := len d' - 1\<rparr>\<rparr>))))"

definition delete :: "int \<Rightarrow> state \<Rightarrow> (fault + state) option" where
  "delete indx s =
     (if indx \<ge> len (dll s) then Some (Inr (s\<lparr>out := out s @ [No_node_at indx]\<rparr>))
      else
        (case walk (heap s) (head (dll s)) 0 indx of
           None \<Rightarrow> None
         | Some (Inl f) \<Rightarrow> Some (Inl f)
         | Some (Inr t) \<Rightarrow> Some (unlink indx s t)))"

subsection \<open>traverse\<close>

text \<open>The \<^verbatim>\<open>do ... while (t != NULL)\<close> loop: the body runs before the first test.\<close>

partial_function (option) traverse_loop ::
  "heap \<Rightarrow> addr option \<Rightarrow> printed list \<Rightarrow> (fault + printed list) option" where
  "traverse_loop h t acc =
     (case deref h t of
        Inl f \<Rightarrow> Some (Inl f)
      | Inr nd \<Rightarrow>
          if nxt nd \<noteq> None then traverse_loop h (nxt nd) (acc @ [Arrow (data nd)])
          else Some (Inr (acc @ [Arrow (data nd)])))"

definition traverse_dll :: "state \<Rightarrow> (fault + state) option" where
  "traverse_dll s =
     (case traverse_loop (heap s) (head (dll s)) (out s) of
        None \<Rightarrow> None
      | Some (Inl f) \<Rightarrow> Some (Inl f)
      | Some (Inr o1) \<Rightarrow> Some (Inr (s\<lparr>out := o1 @ [Null_line]\<rparr>)))"

subsection \<open>The list a state represents\<close>

text \<open>
  A state is described by the addresses of its nodes from head to tail. \<open>chain h p as q\<close>
  says that the nodes at \<open>as\<close> are allocated and linked in this order, the first one's
  \<^verbatim>\<open>prev\<close> being \<open>p\<close> and the last one's \<^verbatim>\<open>next\<close> being \<open>q\<close>. \<open>valid s as\<close>
  is the data model's invariant: the chain runs from \<^verbatim>\<open>NULL\<close> to \<^verbatim>\<open>NULL\<close> without
  repetition, \<^verbatim>\<open>head\<close> and \<^verbatim>\<open>tail\<close> are its ends (both \<^verbatim>\<open>NULL\<close> when it is empty)
  and \<^verbatim>\<open>len\<close> is its length.
\<close>

fun first :: "addr list \<Rightarrow> addr option \<Rightarrow> addr option" where
  "first [] q = q"
| "first (a # as) q = Some a"

fun final :: "addr option \<Rightarrow> addr list \<Rightarrow> addr option" where
  "final p [] = p"
| "final p (a # as) = final (Some a) as"

fun chain :: "heap \<Rightarrow> addr option \<Rightarrow> addr list \<Rightarrow> addr option \<Rightarrow> bool" where
  "chain h p [] q = True"
| "chain h p (a # as) q =
     (case h a of
        None \<Rightarrow> False
      | Some nd \<Rightarrow> prev nd = p \<and> nxt nd = first as q \<and> chain h (Some a) as q)"

definition valid :: "state \<Rightarrow> addr list \<Rightarrow> bool" where
  "valid s as =
     (distinct as \<and> chain (heap s) None as None \<and>
      head (dll s) = first as None \<and> tail (dll s) = final None as \<and>
      len (dll s) = int (length as))"

definition texts :: "heap \<Rightarrow> addr list \<Rightarrow> string list" where
  "texts h as = map (\<lambda>a. case h a of None \<Rightarrow> [] | Some nd \<Rightarrow> data nd) as"

text \<open>
  The invariants as they are worded for a single node: \<^verbatim>\<open>node.prev.next == node\<close> and
  \<^verbatim>\<open>node.next.prev == node\<close>, for each neighbour the node has.
\<close>

definition linked_both_ways :: "heap \<Rightarrow> addr \<Rightarrow> bool" where
  "linked_both_ways h a =
     (case h a of
        None \<Rightarrow> False
      | Some nd \<Rightarrow>
          (case prev nd of None \<Rightarrow> True | Some b \<Rightarrow> get_next h (Some b) = Inr (Some a)) \<and>
          (case nxt nd of None \<Rightarrow> True | Some b \<Rightarrow> get_prev h (Some b) = Inr (Some a)))"

definition bidirectional :: "state \<Rightarrow> addr list \<Rightarrow> bool" where
  "bidirectional s as =
     ((head (dll s) \<noteq> None \<longrightarrow> get_prev (heap s) (head (dll s)) = Inr None) \<and>
      (tail (dll s) \<noteq> None \<longrightarrow> get_next (heap s) (tail (dll s)) = Inr None) \<and>
      (\<forall>a\<in>set as. linked_both_ways (heap s) a))"

definition structural :: "state \<Rightarrow> addr list \<Rightarrow> bool" where
  "structural s as =
     ((len (dll s) = 0 \<longleftrightarrow> head (dll s) = None \<and> tail (dll s) = None) \<and>
      (2 \<le> len (dll s) \<longrightarrow>
         get_prev (heap s) (head (dll s)) = Inr None \<and>
         get_next (heap s) (tail (dll s)) = Inr None \<and>
         (\<forall>a\<in>set as. linked_both_ways (heap s) a)))"

subsection \<open>Sequences of operations\<close>

text \<open>
  Appending one text after the other, each node at its own address, and deleting the
  indices \<open>k - 1, ..., 0\<close> in this order. A fault or a run that does not return ends
  the sequence.
\<close>

fun appends :: "(addr \<times> string) list \<Rightarrow> state \<Rightarrow> fault + state" where
  "appends [] s = Inr s"
| "appends ((n, txt) # rest) s = bnd (append_dll n txt s) (appends rest)"

fun deletes_down :: "nat \<Rightarrow> state \<Rightarrow> (fault + state) option" where
  "deletes_down 0 s = Some (Inr s)"
| "deletes_down (Suc k) s =
     (case delete (int k) s of
        None \<Rightarrow> None
      | Some (Inl f) \<Rightarrow> Some (Inl f)
      | Some (Inr s') \<Rightarrow> deletes_down k s')"

definition round_trip :: "(addr \<times> string) list \<Rightarrow> state \<Rightarrow> (fault + state) option" where
  "round_trip new s =
     (case appends new s of
        Inl f \<Rightarrow> Some (Inl f)
      | Inr s' \<Rightarrow> deletes_down (length new) s')"

subsection \<open>Example states\<close>

definition no_nodes :: state where
  "no_nodes = \<lparr>heap = Map.empty, dll = \<lparr>head = None, tail = None, len = 0\<rparr>, out = []\<rparr>"

definition seed_only :: state where
  "seed_only =
     \<lparr>heap = [0 \<mapsto> \<lparr>data = ''Head'', prev = None, nxt = None\<rparr>],
      dll = \<lparr>head = Some 0, tail = Some 0, len = 1\<rparr>, out = []\<rparr>"

definition head_a :: state where
  "head_a =
     \<lparr>heap = [0 \<mapsto> \<lparr>data = ''Head'', prev = None, nxt = Some 1\<rparr>,
              1 \<mapsto> \<lparr>data = ''A'', prev = Some 0, nxt = None\<rparr>],
      dll = \<lparr>head = Some 0, tail = Some 1, len = 2\<rparr>, out = []\<rparr>"

definition head_a_b :: state where
  "head_a_b =
     \<lparr>heap = [0 \<mapsto> \<lparr>data = ''Head'', prev = None, nxt = Some 1\<rparr>,
              1 \<mapsto> \<lparr>data = ''A'', prev = Some 0, nxt = Some 2\<rparr>,
              2 \<mapsto> \<lparr>data = ''B'', prev = Some 1, nxt = None\<rparr>],
      dll = \<lparr>head = Some 0, tail = Some 2, len = 3\<rparr>, out = []\<rparr>"

section \<open>Properties\<close>

subsection \<open>Chains\<close>

lemma first_append: "first (xs @ ys) q = first xs (first ys q)"
  by (cases xs) simp_all

lemma final_append: "final p (xs @ ys) = final (final p xs) ys"
  by (induction xs arbitrary: p) simp_all

lemma final_last: "as \<noteq> [] \<Longrightarrow> final p as = Some (last as)"
  by (induction as arbitrary: p) auto

lemma chain_append:
  "chain h p (xs @ ys) q = (chain h p xs (first ys q) \<and> chain h (final p xs) ys q)"
  by (induction xs arbitrary: p) (auto simp: first_append split: option.splits)

lemma chain_upd_other: "n \<notin> set as \<Longrightarrow> chain (h(n := v)) p as q = chain h p as q"
  by (induction as arbitrary: p) (auto split: option.splits)

lemma chain_live: "chain h p as q \<Longrightarrow> a \<in> set as \<Longrightarrow> h a \<noteq> None"
  by (induction as arbitrary: p) (auto split: option.splits)

lemma walk_chain:
  "chain h p as q \<Longrightarrow> k \<le> length as \<Longrightarrow>
   walk h (first as q) i (i + int k) = Some (Inr (first (drop k as) q))"
proof (induction as arbitrary: p i k)
  case Nil
  then show ?case by (simp add: walk.simps)
next
  case (Cons a as)
  show ?case
  proof (cases k)
    case 0
    then show ?thesis by (simp add: walk.simps)
  next
    case (Suc j)
    from Cons.prems obtain nd where nd: "h a = Some nd" "nxt nd = first as q" "chain h (Some a) as q"
      by (auto split: option.splits)
    from Cons.prems Suc have j: "j \<le> length as" by simp
    have "walk h (Some a) i (i + int k) = walk h (first as q) (i + 1) ((i + 1) + int j)"
      using nd Suc by (subst walk.simps) (simp add: get_next_def deref_def add.assoc)
    with Cons.IH [OF nd(3) j] Suc show ?thesis by simp
  qed
qed

lemma walk_negative:
  "chain h p as None \<Longrightarrow> indx < i \<Longrightarrow> walk h (first as None) i indx = Some (Inl NullDeref)"
proof (induction as arbitrary: p i)
  case Nil
  then show ?case by (subst walk.simps) (simp add: get_next_def deref_def)
next
  case (Cons a as)
  from Cons.prems obtain nd where nd: "h a = Some nd" "nxt nd = first as None" "chain h (Some a) as None"
    by (auto split: option.splits)
  have "walk h (Some a) i indx = walk h (first as None) (i + 1) indx"
    using nd Cons.prems(2) by (subst walk.simps) (simp add: get_next_def deref_def)
  with Cons.IH [OF nd(3), of "i + 1"] Cons.prems(2) show ?case by simp
qed

subsection \<open>find and traverse on a valid list\<close>

lemma find_loop_chain:
  "chain h p as None \<Longrightarrow>
   find_loop h (first as None) i target =
     Some (Inr (if target \<in> set (texts h as)
                then i + int (length (takeWhile (\<lambda>x. x \<noteq> target) (texts h as)))
                else - 1))"
proof (induction as arbitrary: p i)
  case Nil
  then show ?case by (subst find_loop.simps) (simp add: texts_def)
next
  case (Cons a as)
  from Cons.prems obtain nd where nd: "h a = Some nd" "nxt nd = first as None" "chain h (Some a) as None"
    by (auto split: option.splits)
  show ?case
  proof (cases "data nd = target")
    case True
    with nd show ?thesis by (subst find_loop.simps) (simp add: texts_def deref_def)
  next
    case False
    with nd have "find_loop h (Some a) i target = find_loop h (first as None) (i + 1) target"
      by (subst find_loop.simps) (simp add: deref_def)
    with Cons.IH [OF nd(3), of "i + 1"] nd False show ?thesis
      by (simp add: texts_def)
  qed
qed

lemma traverse_loop_chain:
  "chain h p as None \<Longrightarrow> as \<noteq> [] \<Longrightarrow>
   traverse_loop h (first as None) acc = Some (Inr (acc @ map Arrow (texts h as)))"
proof (induction as arbitrary: p acc)
  case Nil
  then show ?case by simp
next
  case (Cons a as)
  from Cons.prems obtain nd where nd: "h a = Some nd" "nxt nd = first as None" "chain h (Some a) as None"
    by (auto split: option.splits)
  show ?case
  proof (cases as)
    case Nil
    with nd show ?thesis by (subst traverse_loop.simps) (simp add: texts_def deref_def)
  next
    case (Cons b bs)
    with nd have "traverse_loop h (Some a) acc = traverse_loop h (first as None) (acc @ [Arrow (data nd)])"
      by (subst traverse_loop.simps) (simp add: deref_def)
    with Cons.IH [OF nd(3), of "acc @ [Arrow (data nd)]"] nd Cons show ?thesis
      by (simp add: texts_def)
  qed
qed

lemma takeWhile_first:
  "x \<in> set xs \<Longrightarrow>
   length (takeWhile (\<lambda>y. y \<noteq> x) xs) < length xs \<and>
   xs ! length (takeWhile (\<lambda>y. y \<noteq> x) xs) = x \<and>
   (\<forall>j<length (takeWhile (\<lambda>y. y \<noteq> x) xs). xs ! j \<noteq> x)"
proof (induction xs)
  case Nil
  then show ?case by simp
next
  case (Cons y ys)
  show ?case
  proof (cases "y = x")
    case True
    then show ?thesis by simp
  next
    case False
    with Cons.prems have "x \<in> set ys" by simp
    from Cons.IH [OF this] False show ?thesis
      by (auto simp: nth_Cons split: nat.splits)
  qed
qed

subsection \<open>Rewiring\<close>

lemma get_prev_Some: "h a = Some nd \<Longrightarrow> get_prev h (Some a) = Inr (prev nd)"
  by (simp add: get_prev_def deref_def)

lemma get_next_Some: "h a = Some nd \<Longrightarrow> get_next h (Some a) = Inr (nxt nd)"
  by (simp add: get_next_def deref_def)

lemma set_prev_Some: "h a = Some nd \<Longrightarrow> set_prev h (Some a) v = Inr (h(a \<mapsto> nd\<lparr>prev := v\<rparr>))"
  by (simp add: set_prev_def)

lemma set_next_Some: "h a = Some nd \<Longrightarrow> set_next h (Some a) v = Inr (h(a \<mapsto> nd\<lparr>nxt := v\<rparr>))"
  by (simp add: set_next_def)

lemma free_Some: "h a = Some nd \<Longrightarrow> free h (Some a) = Inr (h(a := None))"
  by (simp add: free_def)

lemma create_node_fits:
  "length txt < MAX_DATA_LEN \<Longrightarrow>
   create_node h n txt p q = Inr (h(n \<mapsto> \<lparr>data = txt, prev = p, nxt = q\<rparr>), Some n)"
  by (simp add: create_node_def)

lemma first_hd: "as \<noteq> [] \<Longrightarrow> first as q = Some (hd as)"
  by (cases as) simp_all

lemma chain_set_last:
  "chain h p xs q \<Longrightarrow> xs \<noteq> [] \<Longrightarrow> distinct xs \<Longrightarrow> h (last xs) = Some nd \<Longrightarrow>
   chain (h(last xs \<mapsto> nd\<lparr>nxt := q'\<rparr>)) p xs q'"
proof (induction xs arbitrary: p)
  case Nil
  then show ?case by simp
next
  case (Cons a as)
  show ?case
  proof (cases as)
    case Nil
    with Cons.prems show ?thesis by (auto split: option.splits)
  next
    case (Cons b bs)
    with Cons.prems have "a \<noteq> last as" by auto
    with Cons Cons.prems Cons.IH [of "Some a"] show ?thesis
      by (auto split: option.splits)
  qed
qed

lemma chain_set_first:
  "chain h p (a # as) q \<Longrightarrow> a \<notin> set as \<Longrightarrow> h a = Some nd \<Longrightarrow>
   chain (h(a \<mapsto> nd\<lparr>prev := p'\<rparr>)) p' (a # as) q"
  by (auto simp: chain_upd_other split: option.splits)

lemma chain_last_live:
  "chain h p xs q \<Longrightarrow> xs \<noteq> [] \<Longrightarrow> \<exists>nd. h (last xs) = Some nd \<and> nxt nd = q"
  by (induction xs arbitrary: p) (auto split: option.splits list.splits)

lemma append_dll_valid:
  assumes v: "valid s as" and fresh: "heap s n = None" and fits: "length txt < MAX_DATA_LEN"
  shows "\<exists>s'. append_dll n txt s = Inr s' \<and> valid s' (as @ [n]) \<and> out s' = out s \<and>
           texts (heap s') (as @ [n]) = texts (heap s) as @ [txt] \<and>
           (\<forall>m. m \<notin> set as \<and> m \<noteq> n \<longrightarrow> heap s' m = heap s m)"
proof (cases "as = []")
  case True
  with v have "head (dll s) = None" "len (dll s) = 0" by (simp_all add: valid_def)
  then show ?thesis using True fits
    by (simp add: append_dll_def create_node_fits valid_def texts_def)
next
  case False
  let ?h = "heap s"
  from v have c: "chain ?h None as None" and d: "distinct as"
    and hd: "head (dll s) = first as None" and tl: "tail (dll s) = final None as"
    and ln: "len (dll s) = int (length as)"
    by (simp_all add: valid_def)
  from fresh c have n: "n \<notin> set as" using chain_live by fastforce
  from chain_last_live [OF c False] obtain nd where nd: "?h (last as) = Some nd" by blast
  from False have tl': "tail (dll s) = Some (last as)" by (simp add: tl final_last)
  from False hd have hd': "head (dll s) \<noteq> None" by (cases as) simp_all
  from n False have nl: "last as \<noteq> n" using last_in_set by metis
  let ?h1 = "?h(n \<mapsto> \<lparr>data = txt, prev = Some (last as), nxt = None\<rparr>)"
  let ?h2 = "?h1(last as \<mapsto> nd\<lparr>nxt := Some n\<rparr>)"
  let ?s' = "s\<lparr>heap := ?h2, dll := (dll s)\<lparr>tail := Some n, len := len (dll s) + 1\<rparr>\<rparr>"
  have h1l: "?h1 (last as) = Some nd" using nd nl by simp
  have run: "append_dll n txt s = Inr ?s'"
    using hd' tl' fits h1l
    by (auto simp: append_dll_def Let_def create_node_fits set_next_Some)
  have c1: "chain ?h1 None as None" using c n by (simp add: chain_upd_other)
  have c2: "chain ?h2 None as (Some n)"
    using chain_set_last [OF c1 False d h1l] .
  have "chain ?h2 None (as @ [n]) None"
    using c2 nl False by (simp add: chain_append final_last)
  moreover have "texts ?h2 (as @ [n]) = texts ?h as @ [txt]"
    using n nl nd by (auto simp: texts_def)
  ultimately have "valid ?s' (as @ [n])"
    using d n hd ln False by (simp add: valid_def first_append final_append first_hd)
  moreover note run
  moreover have "\<forall>m. m \<notin> set as \<and> m \<noteq> n \<longrightarrow> ?h2 m = ?h m"
    using False by auto
  ultimately show ?thesis
    using \<open>texts ?h2 (as @ [n]) = texts ?h as @ [txt]\<close> by simp
qed

lemma valid_split:
  assumes "valid s (xs @ t # ys)"
  shows "\<exists>tn. heap s t = Some tn \<and> prev tn = final None xs \<and> nxt tn = first ys None \<and>
           chain (heap s) None xs (Some t) \<and> chain (heap s) (Some t) ys None \<and>
           distinct xs \<and> distinct ys \<and> t \<notin> set xs \<and> t \<notin> set ys \<and> set xs \<inter> set ys = {} \<and>
           walk (heap s) (head (dll s)) 0 (int (length xs)) = Some (Inr (Some t))"
proof -
  from assms have c: "chain (heap s) None (xs @ t # ys) None"
    and d: "distinct (xs @ t # ys)" and hd: "head (dll s) = first (xs @ t # ys) None"
    by (simp_all add: valid_def)
  have "walk (heap s) (head (dll s)) 0 (int (length xs)) = Some (Inr (Some t))"
    using walk_chain [OF c, of "length xs" 0] hd by simp
  with c d show ?thesis
    by (auto simp: chain_append split: option.splits)
qed

lemma insert_dll_valid:
  assumes v: "valid s (xs @ t # ys)" and fresh: "heap s n = None"
    and fits: "length txt < MAX_DATA_LEN" and indx: "indx = int (length xs)"
  shows "\<exists>s'. insert_dll n indx txt s = Some (Inr s') \<and> valid s' (xs @ n # t # ys) \<and>
           out s' = out s \<and> tail (dll s') = tail (dll s) \<and>
           head (dll s') = (if indx = 0 then Some n else head (dll s)) \<and>
           texts (heap s') (xs @ n # t # ys) = texts (heap s) xs @ txt # texts (heap s) (t # ys)"
proof -
  let ?h = "heap s" and ?d = "dll s"
  from valid_split [OF v] obtain tn where tn: "?h t = Some tn" "prev tn = final None xs"
    "nxt tn = first ys None" and cx: "chain ?h None xs (Some t)" and cy: "chain ?h (Some t) ys None"
    and dx: "distinct xs" and dy: "distinct ys" and tx: "t \<notin> set xs" and ty: "t \<notin> set ys"
    and xy: "set xs \<inter> set ys = {}"
    and w: "walk ?h (head ?d) 0 (int (length xs)) = Some (Inr (Some t))"
    by blast
  from v have hd: "head ?d = first (xs @ t # ys) None" and tl: "tail ?d = final None (xs @ t # ys)"
    and ln: "len ?d = int (length (xs @ t # ys))"
    by (simp_all add: valid_def)
  have nx: "n \<notin> set xs" using chain_live [OF cx] fresh by fastforce
  have ny: "n \<notin> set ys" using chain_live [OF cy] fresh by fastforce
  have nt: "n \<noteq> t" using tn fresh by auto
  let ?h1 = "?h(n \<mapsto> \<lparr>data = txt, prev = final None xs, nxt = Some t\<rparr>)"
  have h1t: "?h1 t = Some tn" using tn nt by simp
  have guard: "\<not> indx > len ?d" "indx \<noteq> len ?d" using indx ln by simp_all
  show ?thesis
  proof (cases "xs = []")
    case True
    let ?h3 = "?h1(t \<mapsto> tn\<lparr>prev := Some n\<rparr>)"
    let ?s' = "s\<lparr>heap := ?h3, dll := ?d\<lparr>head := Some n, len := len ?d + 1\<rparr>\<rparr>"
    have run: "insert_dll n indx txt s = Some (Inr ?s')"
      using guard w indx True tn h1t fits ln
      by (simp add: insert_dll_def splice_def Let_def get_prev_Some create_node_fits set_prev_Some)
    have "chain ?h3 (Some t) ys None"
      using cy ty ny by (simp add: chain_upd_other)
    then have "chain ?h3 None (n # t # ys) None"
      using nt tn True by simp
    moreover have "texts ?h3 (n # t # ys) = txt # texts ?h (t # ys)"
      using nt ny ty tn by (auto simp: texts_def)
    ultimately have "valid ?s' (n # t # ys)"
      using dy ty ny nt tl ln True by (simp add: valid_def)
    with run True indx \<open>texts ?h3 (n # t # ys) = txt # texts ?h (t # ys)\<close> show ?thesis
      by (simp add: texts_def)
  next
    case False
    from chain_last_live [OF cx False] obtain lnd where lnd: "?h (last xs) = Some lnd" by blast
    have lx: "last xs \<in> set xs" using False by simp
    have ll: "last xs \<noteq> n" "last xs \<noteq> t" using lx nx tx by auto
    have fx: "final None xs = Some (last xs)" using False by (simp add: final_last)
    let ?h2 = "?h1(last xs \<mapsto> lnd\<lparr>nxt := Some n\<rparr>)"
    let ?h3 = "?h2(t \<mapsto> tn\<lparr>prev := Some n\<rparr>)"
    let ?s' = "s\<lparr>heap := ?h3, dll := ?d\<lparr>len := len ?d + 1\<rparr>\<rparr>"
    have h1l: "?h1 (last xs) = Some lnd" using lnd ll by simp
    have h2t: "?h2 t = Some tn" using tn nt ll by simp
    have i0: "indx \<noteq> 0" using indx False by simp
    have run: "insert_dll n indx txt s = Some (Inr ?s')"
      using guard w indx i0 tn h1t h1l h2t fits fx
      by (simp add: insert_dll_def splice_def Let_def get_prev_Some create_node_fits
          set_prev_Some set_next_Some)
    have "chain ?h1 None xs (Some t)" using cx nx by (simp add: chain_upd_other)
    then have "chain ?h2 None xs (Some n)" using False dx h1l by (rule chain_set_last)
    then have "chain ?h3 None xs (Some n)" using tx by (simp add: chain_upd_other)
    moreover have "chain ?h3 (Some t) ys None"
    proof -
      have "last xs \<notin> set ys" using lx xy by auto
      then show ?thesis using cy ty ny by (simp add: chain_upd_other)
    qed
    then have "chain ?h3 (Some (last xs)) (n # t # ys) None"
      using nt tn ll fx by simp
    ultimately have c': "chain ?h3 None (xs @ n # t # ys) None"
      using fx by (simp add: chain_append)
    have tx': "texts ?h3 (xs @ n # t # ys) = texts ?h xs @ txt # texts ?h (t # ys)"
      using nt nx ny tx ty tn lnd ll by (auto simp: texts_def)
    have "valid ?s' (xs @ n # t # ys)"
      using c' dx dy tx ty nx ny nt xy hd tl ln False
      by (auto simp: valid_def first_append final_append first_hd)
    with run i0 tx' show ?thesis by simp
  qed
qed

lemma chain_first_live:
  "chain h p ys q \<Longrightarrow> ys \<noteq> [] \<Longrightarrow> \<exists>nd. h (hd ys) = Some nd \<and> prev nd = p"
  by (cases ys) (auto split: option.splits)

lemma delete_valid:
  assumes v: "valid s (xs @ t # ys)" and indx: "indx = int (length xs)"
  shows "\<exists>s'. delete indx s = Some (Inr s') \<and> valid s' (xs @ ys) \<and> out s' = out s \<and>
           heap s' t = None \<and> texts (heap s') (xs @ ys) = texts (heap s) (xs @ ys)"
proof -
  let ?h = "heap s" and ?d = "dll s"
  from valid_split [OF v] obtain tn where tn: "?h t = Some tn" "prev tn = final None xs"
    "nxt tn = first ys None" and cx: "chain ?h None xs (Some t)" and cy: "chain ?h (Some t) ys None"
    and dx: "distinct xs" and dy: "distinct ys" and tx: "t \<notin> set xs" and ty: "t \<notin> set ys"
    and xy: "set xs \<inter> set ys = {}"
    and w: "walk ?h (head ?d) 0 (int (length xs)) = Some (Inr (Some t))"
    by blast
  from v have hd: "head ?d = first (xs @ t # ys) None" and tl: "tail ?d = final None (xs @ t # ys)"
    and ln: "len ?d = int (length (xs @ t # ys))"
    by (simp_all add: valid_def)
  have guard: "\<not> indx \<ge> len ?d" using indx ln by simp
  have start: "delete indx s = Some (unlink indx s (Some t))"
    using guard w indx by (simp add: delete_def)
  consider (only) "xs = []" "ys = []" | (at_head) "xs = []" "ys \<noteq> []"
    | (at_tail) "xs \<noteq> []" "ys = []" | (inside) "xs \<noteq> []" "ys \<noteq> []"
    by blast
  then show ?thesis
  proof cases
    case only
    let ?s' = "s\<lparr>heap := ?h(t := None), dll := ?d\<lparr>head := None, tail := None, len := len ?d - 1\<rparr>\<rparr>"
    have "unlink indx s (Some t) = Inr ?s'"
      using only ln tn by (simp add: unlink_def Let_def free_Some)
    moreover have "valid ?s' []" using ln only by (simp add: valid_def)
    ultimately show ?thesis using start only by (simp add: texts_def)
  next
    case at_head
    let ?y = "hd ys"
    from chain_first_live [OF cy at_head(2)] obtain yn where yn: "?h ?y = Some yn" by blast
    have yy: "?y \<in> set ys" using at_head by simp
    have yt: "?y \<noteq> t" using yy ty by auto
    have fy: "first ys None = Some ?y" using at_head by (simp add: first_hd)
    let ?h1 = "?h(?y \<mapsto> yn\<lparr>prev := None\<rparr>)"
    let ?s' = "s\<lparr>heap := ?h1(t := None), dll := ?d\<lparr>head := Some ?y, len := len ?d - 1\<rparr>\<rparr>"
    have h1t: "?h1 t = Some tn" using tn yt by simp
    have len1: "len ?d \<noteq> 1" using ln at_head by simp
    have "unlink indx s (Some t) = Inr ?s'"
      using at_head indx len1 tn yn h1t fy
      by (simp add: unlink_def Let_def free_Some get_next_Some set_prev_Some)
    moreover have "chain (?h1(t := None)) None ys None"
    proof -
      obtain z zs where ys: "ys = z # zs" using at_head by (cases ys) auto
      with dy have "z \<notin> set zs" by simp
      from chain_set_first [OF cy [unfolded ys] this] yn ys
      have "chain ?h1 None ys None" by simp
      then show ?thesis using ty by (simp add: chain_upd_other)
    qed
    moreover have "texts (?h1(t := None)) ys = texts ?h ys"
      using ty yn by (auto simp: texts_def)
    ultimately show ?thesis
      using start at_head dy ty tl ln fy by (simp add: valid_def final_last)
  next
    case at_tail
    let ?l = "last xs"
    from chain_last_live [OF cx at_tail(1)] obtain lnd where lnd: "?h ?l = Some lnd" by blast
    have lx: "?l \<in> set xs" using at_tail by simp
    have lt: "?l \<noteq> t" using lx tx by auto
    have fx: "final None xs = Some ?l" using at_tail by (simp add: final_last)
    let ?h1 = "?h(?l \<mapsto> lnd\<lparr>nxt := None\<rparr>)"
    let ?s' = "s\<lparr>heap := ?h1(t := None), dll := ?d\<lparr>tail := Some ?l, len := len ?d - 1\<rparr>\<rparr>"
    have h1t: "?h1 t = Some tn" using tn lt by simp
    have len1: "len ?d \<noteq> 1" "indx \<noteq> 0" "indx = len ?d - 1" using ln at_tail indx by simp_all
    have "unlink indx s (Some t) = Inr ?s'"
      using len1 tn lnd h1t fx
      by (simp add: unlink_def Let_def free_Some get_prev_Some set_next_Some)
    moreover have "chain (?h1(t := None)) None xs None"
    proof -
      have "chain ?h1 None xs None" using cx at_tail(1) dx lnd by (rule chain_set_last)
      then show ?thesis using tx by (simp add: chain_upd_other)
    qed
    moreover have "texts (?h1(t := None)) xs = texts ?h xs"
      using tx lnd by (auto simp: texts_def)
    ultimately show ?thesis
      using start at_tail dx tx hd ln fx by (simp add: valid_def first_append first_hd)
  next
    case inside
    let ?l = "last xs" and ?y = "hd ys"
    from chain_last_live [OF cx inside(1)] obtain lnd where lnd: "?h ?l = Some lnd" by blast
    from chain_first_live [OF cy inside(2)] obtain yn where yn: "?h ?y = Some yn" by blast
    have lx: "?l \<in> set xs" using inside by simp
    have yy: "?y \<in> set ys" using inside by simp
    have ne: "?l \<noteq> t" "?y \<noteq> t" "?l \<noteq> ?y" using lx yy tx ty xy by auto
    have fx: "final None xs = Some ?l" using inside by (simp add: final_last)
    have fy: "first ys None = Some ?y" using inside by (simp add: first_hd)
    let ?h1 = "?h(?l \<mapsto> lnd\<lparr>nxt := Some ?y\<rparr>)"
    let ?h2 = "?h1(?y \<mapsto> yn\<lparr>prev := Some ?l\<rparr>)"
    let ?s' = "s\<lparr>heap := ?h2(t := None), dll := ?d\<lparr>len := len ?d - 1\<rparr>\<rparr>"
    have h1t: "?h1 t = Some tn" using tn ne by simp
    have h1y: "?h1 ?y = Some yn" using yn ne by simp
    have h2t: "?h2 t = Some tn" using tn ne by simp
    have len1: "len ?d \<noteq> 1" "indx \<noteq> 0" "indx \<noteq> len ?d - 1"
      using ln indx inside by (cases xs; cases ys; simp)+
    have "unlink indx s (Some t) = Inr ?s'"
      using len1 tn lnd h1t h1y h2t fx fy
      by (simp add: unlink_def Let_def free_Some get_prev_Some get_next_Some set_next_Some
          set_prev_Some)
    moreover have "chain (?h2(t := None)) None (xs @ ys) None"
    proof -
      have ly: "?l \<notin> set ys" and yx: "?y \<notin> set xs" using lx yy xy by auto
      have "chain ?h1 None xs (Some ?y)" using cx inside(1) dx lnd by (rule chain_set_last)
      then have a: "chain (?h2(t := None)) None xs (Some ?y)"
        using tx yx by (simp add: chain_upd_other)
      obtain z zs where ys: "ys = z # zs" using inside by (cases ys) auto
      with dy have z: "z \<notin> set zs" by simp
      have "chain ?h1 (Some t) ys None" using cy ly by (simp add: chain_upd_other)
      from chain_set_first [OF this [unfolded ys] z] h1y ys
      have "chain ?h2 (Some ?l) ys None" by simp
      then have b: "chain (?h2(t := None)) (Some ?l) ys None"
        using ty by (simp add: chain_upd_other)
      from a b show ?thesis using fx fy by (simp add: chain_append)
    qed
    moreover have "texts (?h2(t := None)) (xs @ ys) = texts ?h (xs @ ys)"
      using tx ty lnd yn by (auto simp: texts_def)
    ultimately show ?thesis
      using start inside dx dy tx ty xy hd tl ln
      by (simp add: valid_def first_append final_append first_hd final_last)
  qed
qed

subsection \<open>The invariants of a valid list\<close>

lemma valid_bidirectional:
  assumes v: "valid s as"
  shows "bidirectional s as"
proof -
  from v have c: "chain (heap s) None as None"
    and hd: "head (dll s) = first as None" and tl: "tail (dll s) = final None as"
    by (simp_all add: valid_def)
  have h: "head (dll s) \<noteq> None \<longrightarrow> get_prev (heap s) (head (dll s)) = Inr None"
  proof
    assume "head (dll s) \<noteq> None"
    with hd have ne: "as \<noteq> []" by (cases as) simp_all
    from chain_first_live [OF c ne] obtain nd where "heap s (hd as) = Some nd" "prev nd = None"
      by blast
    then show "get_prev (heap s) (head (dll s)) = Inr None"
      using hd ne by (simp add: first_hd get_prev_Some)
  qed
  have t: "tail (dll s) \<noteq> None \<longrightarrow> get_next (heap s) (tail (dll s)) = Inr None"
  proof
    assume "tail (dll s) \<noteq> None"
    with tl have ne: "as \<noteq> []" by (cases as) simp_all
    from chain_last_live [OF c ne] obtain nd where "heap s (last as) = Some nd" "nxt nd = None"
      by blast
    then show "get_next (heap s) (tail (dll s)) = Inr None"
      using tl ne by (simp add: final_last get_next_Some)
  qed
  have "linked_both_ways (heap s) a" if "a \<in> set as" for a
  proof -
    from that obtain xs ys where as: "as = xs @ a # ys" by (auto simp: in_set_conv_decomp)
    from valid_split [OF v [unfolded as]] obtain nd where nd: "heap s a = Some nd"
      "prev nd = final None xs" "nxt nd = first ys None"
      and cx: "chain (heap s) None xs (Some a)" and cy: "chain (heap s) (Some a) ys None"
      by blast
    have p: "case prev nd of None \<Rightarrow> True | Some b \<Rightarrow> get_next (heap s) (Some b) = Inr (Some a)"
    proof (cases "xs = []")
      case True
      with nd show ?thesis by simp
    next
      case False
      from chain_last_live [OF cx False] obtain l where "heap s (last xs) = Some l" "nxt l = Some a"
        by blast
      with nd False show ?thesis by (simp add: final_last get_next_Some)
    qed
    have n: "case nxt nd of None \<Rightarrow> True | Some b \<Rightarrow> get_prev (heap s) (Some b) = Inr (Some a)"
    proof (cases "ys = []")
      case True
      with nd show ?thesis by simp
    next
      case False
      from chain_first_live [OF cy False] obtain y where "heap s (hd ys) = Some y" "prev y = Some a"
        by blast
      with nd False show ?thesis by (simp add: first_hd get_prev_Some)
    qed
    from nd p n show ?thesis by (simp add: linked_both_ways_def)
  qed
  with h t show ?thesis by (simp add: bidirectional_def)
qed

lemma valid_structural:
  assumes v: "valid s as"
  shows "structural s as"
proof -
  from v have hd: "head (dll s) = first as None" and tl: "tail (dll s) = final None as"
    and ln: "len (dll s) = int (length as)"
    by (simp_all add: valid_def)
  have ne: "as \<noteq> [] \<Longrightarrow> head (dll s) = Some (hd as) \<and> tail (dll s) = Some (last as)"
    using hd tl by (simp add: first_hd final_last)
  have "len (dll s) = 0 \<longleftrightarrow> head (dll s) = None \<and> tail (dll s) = None"
  proof (cases "as = []")
    case True
    with hd tl ln show ?thesis by simp
  next
    case False
    with ne ln show ?thesis by simp
  qed
  moreover have "2 \<le> len (dll s) \<Longrightarrow> head (dll s) \<noteq> None \<and> tail (dll s) \<noteq> None"
    using ln ne by (cases "as = []") simp_all
  ultimately show ?thesis
    using valid_bidirectional [OF v] by (auto simp: structural_def bidirectional_def)
qed

lemma valid_fresh: "valid s as \<Longrightarrow> heap s n = None \<Longrightarrow> n \<notin> set as"
  using chain_live [of "heap s" None as None n] by (auto simp: valid_def)

lemma insert_dll_at:
  assumes v: "valid s as" and fresh: "heap s n = None" and fits: "length txt < MAX_DATA_LEN"
    and lo: "0 \<le> indx" and hi: "indx \<le> len (dll s)"
  shows "\<exists>s'. insert_dll n indx txt s = Some (Inr s') \<and>
           valid s' (take (nat indx) as @ n # drop (nat indx) as) \<and> out s' = out s \<and>
           (indx < len (dll s) \<longrightarrow> tail (dll s') = tail (dll s)) \<and>
           head (dll s') = (if indx = 0 then Some n else head (dll s))"
proof (cases "indx = len (dll s)")
  case True
  from v have ln: "len (dll s) = int (length as)" and hd: "head (dll s) = first as None"
    by (simp_all add: valid_def)
  from append_dll_valid [OF v fresh fits] obtain s' where s': "append_dll n txt s = Inr s'"
    "valid s' (as @ [n])" "out s' = out s" by blast
  from s'(2) have "head (dll s') = first (as @ [n]) None" by (simp add: valid_def)
  then have "head (dll s') = (if indx = 0 then Some n else head (dll s))"
    using True ln hd by (cases as) simp_all
  with s' True ln show ?thesis by (simp add: insert_dll_def)
next
  case False
  from v have ln: "len (dll s) = int (length as)" by (simp add: valid_def)
  with False lo hi have i: "nat indx < length as" by simp
  have as: "as = take (nat indx) as @ as ! nat indx # drop (Suc (nat indx)) as"
    using i by (rule id_take_nth_drop)
  have ix: "indx = int (length (take (nat indx) as))" using i lo by simp
  have v': "valid s (take (nat indx) as @ as ! nat indx # drop (Suc (nat indx)) as)"
    using as v by (rule subst [where P = "valid s"])
  from insert_dll_valid [OF v' fresh fits ix]
  show ?thesis using Cons_nth_drop_Suc [OF i] by auto
qed

lemma delete_at:
  assumes v: "valid s as" and lo: "0 \<le> indx" and hi: "indx < len (dll s)"
  shows "\<exists>s'. delete indx s = Some (Inr s') \<and>
           valid s' (take (nat indx) as @ drop (Suc (nat indx)) as) \<and> out s' = out s \<and>
           heap s' (as ! nat indx) = None \<and>
           texts (heap s') (take (nat indx) as @ drop (Suc (nat indx)) as) =
             texts (heap s) (take (nat indx) as @ drop (Suc (nat indx)) as)"
proof -
  from v have ln: "len (dll s) = int (length as)" by (simp add: valid_def)
  with lo hi have i: "nat indx < length as" by simp
  have as: "as = take (nat indx) as @ as ! nat indx # drop (Suc (nat indx)) as"
    using i by (rule id_take_nth_drop)
  have ix: "indx = int (length (take (nat indx) as))" using i lo by simp
  have v': "valid s (take (nat indx) as @ as ! nat indx # drop (Suc (nat indx)) as)"
    using as v by (rule subst [where P = "valid s"])
  from delete_valid [OF v' ix] show ?thesis .
qed

lemma appends_valid:
  "valid s as \<Longrightarrow> distinct (map fst new) \<Longrightarrow>
   \<forall>(n, txt)\<in>set new. heap s n = None \<and> length txt < MAX_DATA_LEN \<Longrightarrow>
   \<exists>s'. appends new s = Inr s' \<and> valid s' (as @ map fst new) \<and> out s' = out s"
proof (induction new arbitrary: s as)
  case Nil
  then show ?case by simp
next
  case (Cons x rest)
  obtain n tx where x: "x = (n, tx)" by (cases x)
  from Cons.prems x have fresh: "heap s n = None" and fits: "length tx < MAX_DATA_LEN"
    by simp_all
  from append_dll_valid [OF Cons.prems(1) fresh fits] obtain s1 where
    s1: "append_dll n tx s = Inr s1" "valid s1 (as @ [n])" "out s1 = out s"
    and frame: "\<forall>m. m \<notin> set as \<and> m \<noteq> n \<longrightarrow> heap s1 m = heap s m"
    by blast
  have "\<forall>(m, t)\<in>set rest. heap s1 m = None \<and> length t < MAX_DATA_LEN"
  proof (clarify, rule conjI)
    fix m t
    assume mt: "(m, t) \<in> set rest"
    with Cons.prems(3) have f: "heap s m = None" and l: "length t < MAX_DATA_LEN" by auto
    from mt Cons.prems(2) x have "m \<noteq> n" by force
    moreover from f Cons.prems(1) have "m \<notin> set as" by (simp add: valid_fresh)
    ultimately show "heap s1 m = None" using frame f by simp
    from l show "length t < MAX_DATA_LEN" .
  qed
  moreover from Cons.prems(2) have "distinct (map fst rest)" by simp
  ultimately obtain s' where "appends rest s1 = Inr s'" "valid s' ((as @ [n]) @ map fst rest)"
    "out s' = out s1"
    using Cons.IH [OF s1(2)] by blast
  with s1 x show ?case by simp
qed

lemma deletes_down_valid:
  "valid s as \<Longrightarrow> length as = k \<Longrightarrow>
   \<exists>s'. deletes_down k s = Some (Inr s') \<and> valid s' [] \<and> out s' = out s"
proof (induction k arbitrary: s as)
  case 0
  then show ?case by simp
next
  case (Suc k)
  then have ne: "as \<noteq> []" by auto
  then have as: "as = butlast as @ [last as]" by simp
  have v': "valid s (butlast as @ [last as])"
    using as Suc.prems(1) by (rule subst [where P = "valid s"])
  have ix: "int k = int (length (butlast as))" using Suc.prems(2) by simp
  from delete_valid [OF v' ix] obtain s1 where
    s1: "delete (int k) s = Some (Inr s1)" "valid s1 (butlast as)" "out s1 = out s"
    by auto
  have "length (butlast as) = k" using Suc.prems(2) by simp
  from Suc.IH [OF s1(2) this] s1 show ?case by simp
qed

section \<open>The claims\<close>

subsection \<open>Facts about the example states\<close>

lemma valid_head_a_b: "valid head_a_b [0, 1, 2]"
  by (simp add: valid_def head_a_b_def)

lemma valid_no_nodes: "valid no_nodes []"
  by (simp add: valid_def no_nodes_def)

lemma head_a_b_fresh: "heap head_a_b 3 = None"
  by (simp add: head_a_b_def)

lemma C_fits: "length ''C'' < MAX_DATA_LEN"
  by (simp add: MAX_DATA_LEN_def)

lemma len_head_a_b: "len (dll head_a_b) = 3"
  by (simp add: head_a_b_def)

subsection \<open>traverse\<close>

lemma traverse_dll_nonempty:
  assumes "valid s as" and "as \<noteq> []"
  shows "traverse_dll s =
           Some (Inr (s\<lparr>out := out s @ map Arrow (texts (heap s) as) @ [Null_line]\<rparr>))"
proof -
  from assms(1) have c: "chain (heap s) None as None" and hd: "head (dll s) = first as None"
    by (simp_all add: valid_def)
  from traverse_loop_chain [OF c assms(2), of "out s"] hd show ?thesis
    by (simp add: traverse_dll_def)
qed

lemma traverse_dll_no_head:
  "head (dll s) = None \<Longrightarrow> traverse_dll s = Some (Inl NullDeref)"
  by (simp add: traverse_dll_def traverse_loop.simps [of _ None] deref_def)

text \<open>
  The run of \<^verbatim>\<open>main\<close>, up to the teardown: a list created with \<^verbatim>\<open>"Head"\<close>, \<^verbatim>\<open>"A"\<close>
  appended, the traversal printed, and \<^verbatim>\<open>"Ba"\<close> looked for.
\<close>

lemma run_of_main:
  "create_doubly_linked_list Map.empty 0 ''Head'' = Inr seed_only \<and>
   append_dll 1 ''A'' seed_only = Inr head_a \<and>
   traverse_dll head_a = Some (Inr (head_a\<lparr>out := [Arrow ''Head'', Arrow ''A'', Null_line]\<rparr>)) \<and>
   find_dll head_a ''Ba'' = Some (Inr (- 1))"
proof -
  have a: "create_doubly_linked_list Map.empty 0 ''Head'' = Inr seed_only"
    by (simp add: create_doubly_linked_list_def create_node_def MAX_DATA_LEN_def seed_only_def)
  have b: "append_dll 1 ''A'' seed_only = Inr head_a"
    by (simp add: append_dll_def create_node_def set_next_def MAX_DATA_LEN_def seed_only_def
        head_a_def fun_upd_twist)
  have v: "valid head_a [0, 1]" by (simp add: valid_def head_a_def)
  have t: "texts (heap head_a) [0, 1] = [''Head'', ''A'']" by (simp add: texts_def head_a_def)
  have c: "traverse_dll head_a = Some (Inr (head_a\<lparr>out := [Arrow ''Head'', Arrow ''A'', Null_line]\<rparr>))"
    using traverse_dll_nonempty [OF v] t by (simp add: head_a_def)
  have "chain (heap head_a) None [0, 1] None" "head (dll head_a) = first [0, 1] None"
    using v by (simp_all add: valid_def)
  then have d: "find_dll head_a ''Ba'' = Some (Inr (- 1))"
    using find_loop_chain [of "heap head_a" None "[0, 1]" 0 "''Ba''"] t
    by (simp add: find_dll_def)
  from a b c d show ?thesis by simp
qed

subsection \<open>The claims, one by one\<close>

text \<open>
  Claim C1, as amended: the text given to \<^verbatim>\<open>append\<close> or \<^verbatim>\<open>insert\<close> is shorter than
  \<open>MAX_DATA_LEN\<close>. Each mutating operation takes a valid list to a valid list: \<^verbatim>\<open>append\<close>,
  \<^verbatim>\<open>insert\<close> at an index from 0 to \<^verbatim>\<open>len\<close>, and \<^verbatim>\<open>delete\<close> at an index from 0 to
  \<^verbatim>\<open>len - 1\<close> return, and the new state is again valid, for the node list with the new
  node put in or the deleted one taken out. In particular the new state has the
  structural invariants: \<^verbatim>\<open>len\<close> is 0 exactly when head and tail are both \<^verbatim>\<open>NULL\<close>,
  and from length 2 on the head has no \<^verbatim>\<open>prev\<close>, the tail has no \<^verbatim>\<open>next\<close>, and every
  node of the list is linked both ways with its neighbours. The new node's address is
  unused before the call.
\<close>

theorem mutations_preserve_invariants:
  assumes "valid s as" and "heap s n = None" and "length txt < MAX_DATA_LEN"
  shows "(\<exists>s'. append_dll n txt s = Inr s' \<and> valid s' (as @ [n]) \<and> structural s' (as @ [n])) \<and>
         (0 \<le> i \<and> i \<le> len (dll s) \<longrightarrow>
            (\<exists>s'. insert_dll n i txt s = Some (Inr s') \<and>
                  valid s' (take (nat i) as @ n # drop (nat i) as) \<and>
                  structural s' (take (nat i) as @ n # drop (nat i) as))) \<and>
         (0 \<le> j \<and> j < len (dll s) \<longrightarrow>
            (\<exists>s'. delete j s = Some (Inr s') \<and>
                  valid s' (take (nat j) as @ drop (Suc (nat j)) as) \<and>
                  structural s' (take (nat j) as @ drop (Suc (nat j)) as)))"
proof (intro conjI impI)
  from append_dll_valid [OF assms] obtain s' where
    "append_dll n txt s = Inr s'" "valid s' (as @ [n])" by blast
  then show "\<exists>s'. append_dll n txt s = Inr s' \<and> valid s' (as @ [n]) \<and> structural s' (as @ [n])"
    using valid_structural by blast
next
  assume "0 \<le> i \<and> i \<le> len (dll s)"
  then have "0 \<le> i" "i \<le> len (dll s)" by simp_all
  from insert_dll_at [OF assms this] obtain s' where
    "insert_dll n i txt s = Some (Inr s')" "valid s' (take (nat i) as @ n # drop (nat i) as)"
    by blast
  then show "\<exists>s'. insert_dll n i txt s = Some (Inr s') \<and>
      valid s' (take (nat i) as @ n # drop (nat i) as) \<and>
      structural s' (take (nat i) as @ n # drop (nat i) as)"
    using valid_structural by blast
next
  assume "0 \<le> j \<and> j < len (dll s)"
  then have "0 \<le> j" "j < len (dll s)" by simp_all
  from delete_at [OF assms(1) this] obtain s' where
    "delete j s = Some (Inr s')" "valid s' (take (nat j) as @ drop (Suc (nat j)) as)"
    by blast
  then show "\<exists>s'. delete j s = Some (Inr s') \<and>
      valid s' (take (nat j) as @ drop (Suc (nat j)) as) \<and>
      structural s' (take (nat j) as @ drop (Suc (nat j)) as)"
    using valid_structural by blast
qed

theorem mutations_preserve_invariants_witness:
  "valid head_a_b [0, 1, 2] \<and> heap head_a_b 3 = None \<and> length ''C'' < MAX_DATA_LEN \<and>
   (\<exists>s'. append_dll 3 ''C'' head_a_b = Inr s' \<and> valid s' [0, 1, 2, 3] \<and>
         structural s' [0, 1, 2, 3]) \<and>
   (\<exists>s'. insert_dll 3 1 ''C'' head_a_b = Some (Inr s') \<and> valid s' [0, 3, 1, 2] \<and>
         structural s' [0, 3, 1, 2]) \<and>
   (\<exists>s'. delete 1 head_a_b = Some (Inr s') \<and> valid s' [0, 2] \<and> structural s' [0, 2])"
  using mutations_preserve_invariants [OF valid_head_a_b head_a_b_fresh C_fits, of 1 1]
    valid_head_a_b head_a_b_fresh C_fits
  by (simp add: len_head_a_b)

text \<open>
  Without the bound on the text the claim fails: \<^verbatim>\<open>append\<close>, and \<^verbatim>\<open>insert\<close> at index
  \<^verbatim>\<open>len\<close>, of a text of \<open>MAX_DATA_LEN = 100\<close> characters on a valid list of three
  nodes end in \<^verbatim>\<open>create_node\<close> writing past the buffer, and no list results.
\<close>

theorem append_overrun_counterexample:
  "valid head_a_b [0, 1, 2] \<and> heap head_a_b 3 = None \<and>
   length (replicate 100 (CHR ''x'')) = MAX_DATA_LEN \<and>
   append_dll 3 (replicate 100 (CHR ''x'')) head_a_b = Inl BufferOverrun \<and>
   insert_dll 3 3 (replicate 100 (CHR ''x'')) head_a_b = Some (Inl BufferOverrun)"
proof -
  have a: "append_dll 3 (replicate 100 (CHR ''x'')) head_a_b = Inl BufferOverrun"
    by (simp add: append_dll_def create_node_def MAX_DATA_LEN_def head_a_b_def)
  then have "insert_dll 3 3 (replicate 100 (CHR ''x'')) head_a_b = Some (Inl BufferOverrun)"
    by (simp add: insert_dll_def len_head_a_b)
  with a valid_head_a_b head_a_b_fresh show ?thesis by (simp add: MAX_DATA_LEN_def)
qed

text \<open>
  Claim C2. An index beyond the range is refused without any change: for every state and
  every index greater than \<^verbatim>\<open>len\<close>, \<^verbatim>\<open>insert\<close> prints its out-of-range line and
  returns with the store and the list struct as they were; for every state and every
  index greater than or equal to \<^verbatim>\<open>len\<close>, \<^verbatim>\<open>delete\<close> does the same. On an empty list
  that is every index from 0 on. The state need not even be a valid list.
\<close>

theorem out_of_range_no_op:
  "(len (dll s) < i \<longrightarrow>
      (\<exists>s'. insert_dll n i txt s = Some (Inr s') \<and> heap s' = heap s \<and> dll s' = dll s \<and>
            out s' = out s @ [Cannot_insert i])) \<and>
   (len (dll s) \<le> j \<longrightarrow>
      (\<exists>s'. delete j s = Some (Inr s') \<and> heap s' = heap s \<and> dll s' = dll s \<and>
            out s' = out s @ [No_node_at j]))"
  by (simp add: insert_dll_def delete_def)

theorem out_of_range_no_op_witness:
  "len (dll head_a_b) < 4 \<and>
   (\<exists>s'. insert_dll 3 4 ''C'' head_a_b = Some (Inr s') \<and> heap s' = heap head_a_b \<and>
         dll s' = dll head_a_b \<and> out s' = out head_a_b @ [Cannot_insert 4]) \<and>
   len (dll no_nodes) \<le> 0 \<and>
   (\<exists>s'. delete 0 no_nodes = Some (Inr s') \<and> heap s' = heap no_nodes \<and>
         dll s' = dll no_nodes \<and> out s' = out no_nodes @ [No_node_at 0])"
proof -
  have a: "len (dll head_a_b) < 4" by (simp add: head_a_b_def)
  have b: "len (dll no_nodes) \<le> 0" by (simp add: no_nodes_def)
  from out_of_range_no_op [of head_a_b 4 3 "''C''" 4] a
  have "\<exists>s'. insert_dll 3 4 ''C'' head_a_b = Some (Inr s') \<and> heap s' = heap head_a_b \<and>
         dll s' = dll head_a_b \<and> out s' = out head_a_b @ [Cannot_insert 4]" by blast
  moreover from out_of_range_no_op [of no_nodes 0 0 "''C''" 0] b
  have "\<exists>s'. delete 0 no_nodes = Some (Inr s') \<and> heap s' = heap no_nodes \<and>
         dll s' = dll no_nodes \<and> out s' = out no_nodes @ [No_node_at 0]" by blast
  ultimately show ?thesis using a b by blast
qed

text \<open>
  Claim C3. On every valid list and for every target, \<^verbatim>\<open>find\<close> returns; its result is
  \<open>-1\<close> when no node holds the target (so on the empty list too), and otherwise the
  zero-based position of the first node, from the head, whose text equals the target.
\<close>

theorem find_first_match:
  assumes "valid s as"
  shows "\<exists>r. find_dll s target = Some (Inr r) \<and>
          (target \<notin> set (texts (heap s) as) \<longrightarrow> r = - 1) \<and>
          (target \<in> set (texts (heap s) as) \<longrightarrow>
             (\<exists>k<length as. r = int k \<and> texts (heap s) as ! k = target \<and>
                (\<forall>j<k. texts (heap s) as ! j \<noteq> target)))"
proof -
  let ?ts = "texts (heap s) as"
  let ?k = "length (takeWhile (\<lambda>x. x \<noteq> target) ?ts)"
  from assms have c: "chain (heap s) None as None" and hd: "head (dll s) = first as None"
    by (simp_all add: valid_def)
  have f: "find_dll s target = Some (Inr (if target \<in> set ?ts then int ?k else - 1))"
    using find_loop_chain [OF c, of 0 target] hd by (simp add: find_dll_def)
  have len: "length ?ts = length as" by (simp add: texts_def)
  have "target \<in> set ?ts \<Longrightarrow> ?k < length as \<and> ?ts ! ?k = target \<and> (\<forall>j<?k. ?ts ! j \<noteq> target)"
    using takeWhile_first [of target ?ts] len by simp
  with f show ?thesis by auto
qed

theorem find_first_match_witness:
  "valid head_a_b [0, 1, 2] \<and> find_dll head_a_b ''A'' = Some (Inr 1) \<and>
   find_dll head_a_b ''Ba'' = Some (Inr (- 1)) \<and> find_dll no_nodes ''A'' = Some (Inr (- 1))"
proof -
  have t: "texts (heap head_a_b) [0, 1, 2] = [''Head'', ''A'', ''B'']"
    by (simp add: texts_def head_a_b_def)
  from find_first_match [OF valid_head_a_b, of "''A''"] obtain r k where
    r: "find_dll head_a_b ''A'' = Some (Inr r)" "k < 3" "r = int k"
       "[''Head'', ''A'', ''B''] ! k = ''A''"
    unfolding t by auto
  from r(2,4) have "k = 1" by (auto simp: nth_Cons' less_Suc_eq numeral_3_eq_3 split: if_splits)
  with r have a: "find_dll head_a_b ''A'' = Some (Inr 1)" by simp
  from find_first_match [OF valid_head_a_b, of "''Ba''"]
  have b: "find_dll head_a_b ''Ba'' = Some (Inr (- 1))" unfolding t by auto
  from find_first_match [OF valid_no_nodes, of "''A''"]
  have c: "find_dll no_nodes ''A'' = Some (Inr (- 1))" by (auto simp: texts_def)
  from a b c valid_head_a_b show ?thesis by simp
qed

text \<open>
  Claim C4. For every state and every text, \<^verbatim>\<open>insert\<close> at index \<^verbatim>\<open>len\<close> gives exactly
  what \<^verbatim>\<open>append\<close> gives: the same store, list struct and output, or the same fault.
\<close>

theorem insert_at_len_is_append:
  "insert_dll n (len (dll s)) txt s = Some (append_dll n txt s)"
  by (simp add: insert_dll_def)

text \<open>
  Claim C5. On a valid list and for an index from 0 to \<^verbatim>\<open>len - 1\<close>, \<^verbatim>\<open>delete\<close> returns;
  the list of the new state is the old one without the node at that position, that node
  is freed, the texts of the other nodes are as before, \<^verbatim>\<open>len\<close> is one less, and the
  new list is linked both ways with no \<^verbatim>\<open>prev\<close> at its head and no \<^verbatim>\<open>next\<close> at its
  tail.
\<close>

theorem delete_removes_node:
  assumes "valid s as" and "0 \<le> indx" and "indx < len (dll s)"
  shows "\<exists>s'. delete indx s = Some (Inr s') \<and>
           valid s' (take (nat indx) as @ drop (Suc (nat indx)) as) \<and>
           len (dll s') = len (dll s) - 1 \<and>
           heap s' (as ! nat indx) = None \<and>
           texts (heap s') (take (nat indx) as @ drop (Suc (nat indx)) as) =
             texts (heap s) (take (nat indx) as @ drop (Suc (nat indx)) as) \<and>
           bidirectional s' (take (nat indx) as @ drop (Suc (nat indx)) as)"
proof -
  let ?as' = "take (nat indx) as @ drop (Suc (nat indx)) as"
  from delete_at [OF assms] obtain s' where s': "delete indx s = Some (Inr s')" "valid s' ?as'"
    "heap s' (as ! nat indx) = None" "texts (heap s') ?as' = texts (heap s) ?as'"
    by blast
  from assms have "len (dll s) = int (length as)" by (simp add: valid_def)
  moreover from s'(2) have "len (dll s') = int (length ?as')" by (simp add: valid_def)
  ultimately have "len (dll s') = len (dll s) - 1" using assms(2,3) by simp
  with s' valid_bidirectional [OF s'(2)] show ?thesis by blast
qed

theorem delete_removes_node_witness:
  "valid head_a_b [0, 1, 2] \<and> (0 :: int) \<le> 1 \<and> 1 < len (dll head_a_b) \<and>
   (\<exists>s'. delete 1 head_a_b = Some (Inr s') \<and> valid s' [0, 2] \<and> len (dll s') = 2 \<and>
         heap s' 1 = None \<and> texts (heap s') [0, 2] = [''Head'', ''B''] \<and>
         bidirectional s' [0, 2])"
proof -
  have b: "1 < len (dll head_a_b)" by (simp add: len_head_a_b)
  have t: "texts (heap head_a_b) [0, 2] = [''Head'', ''B'']"
    by (simp add: texts_def head_a_b_def)
  from delete_removes_node [OF valid_head_a_b _ b] t valid_head_a_b b show ?thesis
    by (simp add: len_head_a_b)
qed

text \<open>
  Claim C6 says that \<^verbatim>\<open>traverse_dll\<close> handles the empty list like any other. The code
  does not: its \<^verbatim>\<open>do ... while\<close> loop reads \<^verbatim>\<open>t->data\<close> before it tests \<open>t\<close>, so on
  the empty list it reads through \<^verbatim>\<open>NULL\<close>. The empty list is a state the program
  reaches: creating a list and deleting index 0 gives it, and \<^verbatim>\<open>find\<close> on it returns
  \<open>-1\<close> as it should. On a non-empty valid list \<^verbatim>\<open>traverse_dll\<close> prints the texts in
  order and then the \<^verbatim>\<open>NULL\<close> line (lemma \<open>traverse_dll_nonempty\<close>).
\<close>

theorem traverse_empty_list_faults:
  "create_doubly_linked_list Map.empty 0 ''Head'' = Inr seed_only \<and>
   delete 0 seed_only = Some (Inr no_nodes) \<and>
   valid no_nodes [] \<and>
   find_dll no_nodes ''Head'' = Some (Inr (- 1)) \<and>
   traverse_dll no_nodes = Some (Inl NullDeref)"
proof -
  have a: "create_doubly_linked_list Map.empty 0 ''Head'' = Inr seed_only"
    by (simp add: create_doubly_linked_list_def create_node_def MAX_DATA_LEN_def seed_only_def)
  have w: "walk (heap seed_only) (head (dll seed_only)) 0 0 = Some (Inr (Some 0))"
    by (subst walk.simps) (simp add: seed_only_def)
  have b: "delete 0 seed_only = Some (Inr no_nodes)"
    using w by (simp add: delete_def unlink_def free_def seed_only_def no_nodes_def)
  have c: "find_dll no_nodes ''Head'' = Some (Inr (- 1))"
    by (simp add: find_dll_def find_loop.simps [of _ None] no_nodes_def)
  have d: "traverse_dll no_nodes = Some (Inl NullDeref)"
    by (simp add: traverse_dll_def traverse_loop.simps [of _ None] deref_def no_nodes_def)
  from a b c d valid_no_nodes show ?thesis by simp
qed

text \<open>
  Claim C7, as amended. \<^verbatim>\<open>create_doubly_linked_list\<close> has no length check. For every
  text shorter than \<open>MAX_DATA_LEN\<close>, so that the text and its NUL fit the buffer, it
  allocates one node with that text and no neighbours, makes it head and tail, and sets
  \<^verbatim>\<open>len\<close> to 1. For every text of \<open>MAX_DATA_LEN\<close> characters or more, \<^verbatim>\<open>strcpy\<close>
  writes past the end of the buffer, which is the fault \<open>BufferOverrun\<close> and not a
  report to the caller.
\<close>

theorem create_within_capacity:
  "(length txt < MAX_DATA_LEN \<longrightarrow>
      create_doubly_linked_list h n txt =
        Inr \<lparr>heap = h(n \<mapsto> \<lparr>data = txt, prev = None, nxt = None\<rparr>),
             dll = \<lparr>head = Some n, tail = Some n, len = 1\<rparr>, out = []\<rparr>) \<and>
   (MAX_DATA_LEN \<le> length txt \<longrightarrow> create_doubly_linked_list h n txt = Inl BufferOverrun)"
  by (simp add: create_doubly_linked_list_def create_node_def)

theorem create_within_capacity_witness:
  "length ''Head'' < MAX_DATA_LEN \<and>
   create_doubly_linked_list Map.empty 0 ''Head'' = Inr seed_only \<and>
   valid seed_only [0] \<and>
   MAX_DATA_LEN \<le> length (replicate 100 (CHR ''x'')) \<and>
   create_doubly_linked_list Map.empty 0 (replicate 100 (CHR ''x'')) = Inl BufferOverrun"
proof -
  have a: "length ''Head'' < MAX_DATA_LEN" by (simp add: MAX_DATA_LEN_def)
  have b: "MAX_DATA_LEN \<le> length (replicate 100 (CHR ''x''))" by (simp add: MAX_DATA_LEN_def)
  have v: "valid seed_only [0]" by (simp add: valid_def seed_only_def)
  from create_within_capacity [of "''Head''" Map.empty 0] a
  have "create_doubly_linked_list Map.empty 0 ''Head'' = Inr seed_only"
    by (simp add: seed_only_def)
  moreover from create_within_capacity [of "replicate 100 (CHR ''x'')" Map.empty 0] b
  have "create_doubly_linked_list Map.empty 0 (replicate 100 (CHR ''x'')) = Inl BufferOverrun"
    by blast
  ultimately show ?thesis using a b v by blast
qed

text \<open>
  The claim as first stated fails at the boundary and beyond it. A text of exactly
  \<open>MAX_DATA_LEN = 100\<close> characters does not exceed the maximum, yet no list is built:
  its NUL is written past the buffer. A text of 101 characters exceeds the maximum and
  is not rejected either; the copy overruns the buffer.
\<close>

theorem create_overrun_counterexample:
  "\<not> MAX_DATA_LEN < length (replicate 100 (CHR ''x'')) \<and>
   create_doubly_linked_list Map.empty 0 (replicate 100 (CHR ''x'')) = Inl BufferOverrun \<and>
   MAX_DATA_LEN < length (replicate 101 (CHR ''x'')) \<and>
   create_doubly_linked_list Map.empty 0 (replicate 101 (CHR ''x'')) = Inl BufferOverrun"
  by (simp add: create_doubly_linked_list_def create_node_def MAX_DATA_LEN_def)

text \<open>
  Claim C8, as amended: the text is shorter than \<open>MAX_DATA_LEN\<close>. On a valid list,
  \<^verbatim>\<open>insert\<close> of such a text at an index from 0 to \<^verbatim>\<open>len - 1\<close> returns with
  the tail pointer it found, which is never the new node: the test \<^verbatim>\<open>indx == dll->len\<close>
  after the splice is false in every such call. At index 0 the head pointer is the new
  node.
\<close>

theorem insert_inside_keeps_tail:
  assumes "valid s as" and "heap s n = None" and "length txt < MAX_DATA_LEN"
    and "0 \<le> indx" and "indx < len (dll s)"
  shows "\<exists>s'. insert_dll n indx txt s = Some (Inr s') \<and>
           tail (dll s') = tail (dll s) \<and> tail (dll s') \<noteq> Some n \<and>
           (indx = 0 \<longrightarrow> head (dll s') = Some n)"
proof -
  from assms(5) have le: "indx \<le> len (dll s)" by simp
  from insert_dll_at [OF assms(1-4) le] assms(5) obtain s' where
    s': "insert_dll n indx txt s = Some (Inr s')" "tail (dll s') = tail (dll s)"
    "head (dll s') = (if indx = 0 then Some n else head (dll s))"
    by blast
  from assms(1) have tl: "tail (dll s) = final None as" and ln: "len (dll s) = int (length as)"
    by (simp_all add: valid_def)
  from ln assms(4,5) have ne: "as \<noteq> []" by auto
  have "last as \<noteq> n" using valid_fresh [OF assms(1,2)] ne last_in_set by metis
  then have "tail (dll s) \<noteq> Some n" using tl ne by (simp add: final_last)
  with s' show ?thesis by simp
qed

theorem insert_inside_keeps_tail_witness:
  "valid head_a_b [0, 1, 2] \<and> heap head_a_b 3 = None \<and> length ''C'' < MAX_DATA_LEN \<and>
   (0 :: int) \<le> 0 \<and> 0 < len (dll head_a_b) \<and>
   (\<exists>s'. insert_dll 3 0 ''C'' head_a_b = Some (Inr s') \<and> tail (dll s') = Some 2 \<and>
         head (dll s') = Some 3) \<and>
   (\<exists>s'. insert_dll 3 2 ''C'' head_a_b = Some (Inr s') \<and> tail (dll s') = Some 2)"
proof -
  have b: "0 < len (dll head_a_b)" "2 < len (dll head_a_b)" by (simp_all add: len_head_a_b)
  have t: "tail (dll head_a_b) = Some 2" by (simp add: head_a_b_def)
  from insert_inside_keeps_tail [OF valid_head_a_b head_a_b_fresh C_fits _ b(1)]
  have "\<exists>s'. insert_dll 3 0 ''C'' head_a_b = Some (Inr s') \<and> tail (dll s') = Some 2 \<and>
         head (dll s') = Some 3"
    by (auto simp: t)
  moreover from insert_inside_keeps_tail [OF valid_head_a_b head_a_b_fresh C_fits _ b(2)]
  have "\<exists>s'. insert_dll 3 2 ''C'' head_a_b = Some (Inr s') \<and> tail (dll s') = Some 2"
    by (auto simp: t)
  ultimately show ?thesis using valid_head_a_b head_a_b_fresh C_fits b by simp
qed

text \<open>
  Without the bound on the text the claim fails: \<^verbatim>\<open>insert\<close> at index 0 of a text of
  \<open>MAX_DATA_LEN = 100\<close> characters into a valid list of three nodes ends in
  \<^verbatim>\<open>create_node\<close> writing past the buffer, before any pointer is rewired.
\<close>

theorem insert_overrun_counterexample:
  "valid head_a_b [0, 1, 2] \<and> heap head_a_b 3 = None \<and> (0 :: int) \<le> 0 \<and>
   0 < len (dll head_a_b) \<and> length (replicate 100 (CHR ''x'')) = MAX_DATA_LEN \<and>
   insert_dll 3 0 (replicate 100 (CHR ''x'')) head_a_b = Some (Inl BufferOverrun)"
proof -
  have w: "walk (heap head_a_b) (head (dll head_a_b)) 0 0 = Some (Inr (Some 0))"
    by (subst walk.simps) (simp add: head_a_b_def)
  have "splice 3 0 (replicate 100 (CHR ''x'')) head_a_b (Some 0) = Inl BufferOverrun"
    by (simp add: splice_def get_prev_def deref_def create_node_def MAX_DATA_LEN_def head_a_b_def)
  with w have "insert_dll 3 0 (replicate 100 (CHR ''x'')) head_a_b = Some (Inl BufferOverrun)"
    by (simp add: insert_dll_def len_head_a_b)
  with valid_head_a_b head_a_b_fresh show ?thesis by (simp add: len_head_a_b MAX_DATA_LEN_def)
qed

text \<open>
  Claim C9, as amended: every text is shorter than \<open>MAX_DATA_LEN\<close>. Starting from an
  empty list, appending \<open>N \<ge> 1\<close> such texts and then deleting
  the indices \<open>N - 1, ..., 0\<close> in this order returns, and the list is empty again: head
  and tail are \<^verbatim>\<open>NULL\<close> and \<^verbatim>\<open>len\<close> is 0. The new nodes get pairwise different unused
  addresses.
\<close>

theorem append_then_delete_all:
  assumes "head (dll s) = None" and "tail (dll s) = None" and "len (dll s) = 0"
    and "1 \<le> length new" and "distinct (map fst new)"
    and "\<forall>(n, txt)\<in>set new. heap s n = None \<and> length txt < MAX_DATA_LEN"
  shows "\<exists>s1 s'. appends new s = Inr s1 \<and> len (dll s1) = int (length new) \<and>
           deletes_down (length new) s1 = Some (Inr s') \<and>
           round_trip new s = Some (Inr s') \<and>
           head (dll s') = None \<and> tail (dll s') = None \<and> len (dll s') = 0"
proof -
  from assms(1-3) have v: "valid s []" by (simp add: valid_def)
  from appends_valid [OF v assms(5,6)] obtain s1 where
    s1: "appends new s = Inr s1" "valid s1 (map fst new)" by auto
  from deletes_down_valid [OF s1(2), of "length new"] obtain s' where
    s': "deletes_down (length new) s1 = Some (Inr s')" "valid s' []" by auto
  from s1(2) have "len (dll s1) = int (length new)" by (simp add: valid_def)
  moreover from s'(2) have "head (dll s') = None" "tail (dll s') = None" "len (dll s') = 0"
    by (simp_all add: valid_def)
  ultimately show ?thesis using s1 s' by (simp add: round_trip_def)
qed

theorem append_then_delete_all_witness:
  "head (dll no_nodes) = None \<and> tail (dll no_nodes) = None \<and> len (dll no_nodes) = 0 \<and>
   (\<exists>s'. round_trip [(0, ''Head''), (1, ''A''), (2, ''B'')] no_nodes = Some (Inr s') \<and>
         head (dll s') = None \<and> tail (dll s') = None \<and> len (dll s') = 0)"
proof -
  have e: "head (dll no_nodes) = None" "tail (dll no_nodes) = None" "len (dll no_nodes) = 0"
    by (simp_all add: no_nodes_def)
  have f: "\<forall>(n, txt)\<in>set [(0, ''Head''), (1, ''A''), (2, ''B'')].
             heap no_nodes n = None \<and> length txt < MAX_DATA_LEN"
    by (simp add: no_nodes_def MAX_DATA_LEN_def)
  from append_then_delete_all [OF e _ _ f] e show ?thesis by auto
qed

text \<open>
  Without the bound on the texts the claim fails already for \<open>N = 1\<close>: appending one
  text of \<open>MAX_DATA_LEN = 100\<close> characters to the empty list ends in \<^verbatim>\<open>create_node\<close>
  writing past the buffer, and the deletions are never reached.
\<close>

theorem round_trip_overrun_counterexample:
  "head (dll no_nodes) = None \<and> tail (dll no_nodes) = None \<and> len (dll no_nodes) = 0 \<and>
   heap no_nodes 0 = None \<and> length (replicate 100 (CHR ''x'')) = MAX_DATA_LEN \<and>
   round_trip [(0, replicate 100 (CHR ''x''))] no_nodes = Some (Inl BufferOverrun)"
  by (simp add: round_trip_def append_dll_def create_node_def MAX_DATA_LEN_def no_nodes_def)

text \<open>
  Claim C10. On every valid list and for every negative index, neither guard of
  \<^verbatim>\<open>insert\<close> and \<^verbatim>\<open>delete\<close> refuses the index; the loop then walks off the end of the
  chain and reads \<^verbatim>\<open>next\<close> through \<^verbatim>\<open>NULL\<close>. Both operations end in that fault.
\<close>

theorem negative_index_faults:
  assumes "valid s as" and "indx < 0"
  shows "insert_dll n indx txt s = Some (Inl NullDeref) \<and> delete indx s = Some (Inl NullDeref)"
proof -
  from assms(1) have c: "chain (heap s) None as None" and hd: "head (dll s) = first as None"
    and ln: "len (dll s) = int (length as)"
    by (simp_all add: valid_def)
  have w: "walk (heap s) (head (dll s)) 0 indx = Some (Inl NullDeref)"
    using walk_negative [OF c assms(2)] hd by simp
  have "\<not> indx > len (dll s)" "indx \<noteq> len (dll s)" "\<not> indx \<ge> len (dll s)"
    using ln assms(2) by simp_all
  with w show ?thesis by (simp add: insert_dll_def delete_def)
qed

theorem negative_index_faults_witness:
  "valid head_a_b [0, 1, 2] \<and> (- 1 :: int) < 0 \<and>
   insert_dll 3 (- 1) ''C'' head_a_b = Some (Inl NullDeref) \<and>
   delete (- 1) head_a_b = Some (Inl NullDeref)"
  using negative_index_faults [OF valid_head_a_b, of "- 1" 3 "''C''"] valid_head_a_b by simp

end
